theory Spec2Isabelle
  imports Main "HOL-Library.Word"
begin

unbundle bit_operations_syntax

section \<open>BigInt arithmetic of the host language\<close>

text \<open>
  The bundle \<^verbatim>\<open>bigint-crypto-utils/dist/bundles/esm.js\<close> computes on JavaScript
  BigInt values, modelled as \<^typ>\<open>int\<close>. BigInt \<^verbatim>\<open>/\<close> truncates towards zero and
  \<^verbatim>\<open>%\<close> takes the sign of the dividend; HOL's \<open>div\<close> and \<open>mod\<close> round towards minus
  infinity, so both operators are written out. \<^verbatim>\<open>>>\<close> is the arithmetic shift
  (\<open>drop_bit\<close> on \<^typ>\<open>int\<close>), \<^verbatim>\<open><<\<close> is \<open>push_bit\<close>, \<^verbatim>\<open>&\<close> and \<^verbatim>\<open>|\<close> are \<open>AND\<close> and
  \<open>OR\<close> on the two's complement reading, which is the one HOL gives \<^typ>\<open>int\<close>.
  A BigInt division by zero throws; every divisor below is a literal, a table entry or a
  value tested just before, except in \<^verbatim>\<open>lcm\<close>, where the throw is a branch of the model.
\<close>

definition bigint_div :: "int \<Rightarrow> int \<Rightarrow> int" where
  "bigint_div a b = sgn a * sgn b * (\<bar>a\<bar> div \<bar>b\<bar>)"

definition bigint_rem :: "int \<Rightarrow> int \<Rightarrow> int" where
  "bigint_rem a b = sgn a * (\<bar>a\<bar> mod \<bar>b\<bar>)"

text \<open>
  Every throw of the bundle is a \<^verbatim>\<open>RangeError\<close>; the model keeps the message of an
  argument check and the two operands of the failed inversion, which is how the two kinds
  of failure are told apart.
\<close>

datatype error =
    InvalidArgument string
  | NoInverseExists int int
  | DivisionByZero

section \<open>Modular arithmetic primitives\<close>

definition abs_js :: "int \<Rightarrow> int" where
  "abs_js a = (if a \<ge> 0 then a else - a)"

definition max_js :: "int \<Rightarrow> int \<Rightarrow> int" where
  "max_js a b = (if a \<ge> b then a else b)"

definition min_js :: "int \<Rightarrow> int \<Rightarrow> int" where
  "min_js a b = (if a \<ge> b then b else a)"

text \<open>The do-while of \<^verbatim>\<open>bitLength\<close>: count, shift, test.\<close>

function bitLength_loop :: "int \<Rightarrow> int \<Rightarrow> int" where
  "bitLength_loop a bits =
     (let bits' = bits + 1; a' = drop_bit 1 a
      in if a' > 1 then bitLength_loop a' bits' else bits')"
  by pat_completeness auto
termination
  by (relation "measure (\<lambda>(a, bits). nat a)") (auto simp: drop_bit_eq_div)

declare bitLength_loop.simps [simp del]

definition bitLength :: "int \<Rightarrow> int" where
  "bitLength a = (if a = 1 then 1 else bitLength_loop a 1)"

record egcd =
  egcd_g :: int
  egcd_x :: int
  egcd_y :: int

function eGcd_loop :: "int \<Rightarrow> int \<Rightarrow> int \<Rightarrow> int \<Rightarrow> int \<Rightarrow> int \<Rightarrow> egcd" where
  "eGcd_loop a b x y u v =
     (if a \<noteq> 0 then
        (let q = bigint_div b a;
             r = bigint_rem b a;
             m = x - (u * q);
             n = y - (v * q)
         in eGcd_loop r a u v m n)
      else \<lparr>egcd_g = b, egcd_x = x, egcd_y = y\<rparr>)"
  by pat_completeness auto
termination
  by (relation "measure (\<lambda>(a, b, x, y, u, v). nat \<bar>a\<bar>)") (auto simp: bigint_rem_def abs_mult)

declare eGcd_loop.simps [simp del]

definition eGcd :: "int \<Rightarrow> int \<Rightarrow> error + egcd" where
  "eGcd a b =
     (if a \<le> 0 \<or> b \<le> 0 then Inl (InvalidArgument ''a and b MUST be > 0'')
      else Inr (eGcd_loop a b 0 1 1 0))"

text \<open>
  The three loops of the binary \<^verbatim>\<open>gcd\<close>. None of them is guarded against a zero
  operand, on which it would shift forever, so each is a partial function and \<open>None\<close>
  stands for a loop that does not end.
\<close>

partial_function (option) gcd_shift :: "int \<Rightarrow> int \<Rightarrow> int \<Rightarrow> (int \<times> int \<times> int) option" where
  "gcd_shift aAbs bAbs shift =
     (if (aAbs OR bAbs) AND 1 = 0
      then gcd_shift (drop_bit 1 aAbs) (drop_bit 1 bAbs) (shift + 1)
      else Some (aAbs, bAbs, shift))"

declare gcd_shift.simps [code]

partial_function (option) gcd_strip :: "int \<Rightarrow> int option" where
  "gcd_strip v = (if v AND 1 = 0 then gcd_strip (drop_bit 1 v) else Some v)"

declare gcd_strip.simps [code]

partial_function (option) gcd_reduce :: "int \<Rightarrow> int \<Rightarrow> int option" where
  "gcd_reduce aAbs bAbs =
     (case gcd_strip bAbs of
        None \<Rightarrow> None
      | Some b1 \<Rightarrow>
          (let a2 = (if aAbs > b1 then b1 else aAbs);
               b2 = (if aAbs > b1 then aAbs else b1);
               b3 = b2 - a2
           in if b3 \<noteq> 0 then gcd_reduce a2 b3 else Some a2))"

declare gcd_reduce.simps [code]

definition gcd_js :: "int \<Rightarrow> int \<Rightarrow> int option" where
  "gcd_js a b =
     (let aAbs = abs_js a; bAbs = abs_js b
      in if aAbs = 0 then Some bAbs
         else if bAbs = 0 then Some aAbs
         else (case gcd_shift aAbs bAbs 0 of
                 None \<Rightarrow> None
               | Some (a1, b1, shift) \<Rightarrow>
                   (case gcd_strip a1 of
                      None \<Rightarrow> None
                    | Some a2 \<Rightarrow>
                        (case gcd_reduce a2 b1 of
                           None \<Rightarrow> None
                         | Some a3 \<Rightarrow> Some (push_bit (nat shift) a3)))))"

definition lcm_js :: "int \<Rightarrow> int \<Rightarrow> (error + int) option" where
  "lcm_js a b =
     (if a = 0 \<and> b = 0 then Some (Inr 0)
      else (case gcd_js a b of
              None \<Rightarrow> None
            | Some d \<Rightarrow>
                if d = 0 then Some (Inl DivisionByZero)
                else Some (Inr (abs_js (bigint_div a d * b)))))"

definition toZn :: "int \<Rightarrow> int \<Rightarrow> error + int" where
  "toZn a n =
     (if n \<le> 0 then Inl (InvalidArgument ''n must be > 0'')
      else (let aZn = bigint_rem a n in Inr (if aZn < 0 then aZn + n else aZn)))"

definition modInv :: "int \<Rightarrow> int \<Rightarrow> error + int" where
  "modInv a n =
     (case toZn a n of
        Inl e \<Rightarrow> Inl e
      | Inr a' \<Rightarrow>
          (case eGcd a' n of
             Inl e \<Rightarrow> Inl e
           | Inr r \<Rightarrow>
               if egcd_g r \<noteq> 1 then Inl (NoInverseExists a n)
               else toZn (egcd_x r) n))"

text \<open>The while loop of \<^verbatim>\<open>modPow\<close>: right-to-left binary exponentiation.\<close>

function modPow_loop :: "int \<Rightarrow> int \<Rightarrow> int \<Rightarrow> int \<Rightarrow> int" where
  "modPow_loop r e b n =
     (if e > 0 then
        modPow_loop (if bigint_rem e 2 = 1 then bigint_rem (r * b) n else r)
                    (bigint_div e 2)
                    (bigint_rem (b ^ 2) n)
                    n
      else r)"
  by pat_completeness auto
termination
  by (relation "measure (\<lambda>(r, e, b, n). nat e)") (auto simp: bigint_div_def)

declare modPow_loop.simps [simp del]

function modPow :: "int \<Rightarrow> int \<Rightarrow> int \<Rightarrow> error + int" where
  "modPow b e n =
     (if n \<le> 0 then Inl (InvalidArgument ''n must be > 0'')
      else if n = 1 then Inr 0
      else (case toZn b n of
              Inl err \<Rightarrow> Inl err
            | Inr b' \<Rightarrow>
                if e < 0 then
                  (case modPow b' (abs_js e) n of
                     Inl err \<Rightarrow> Inl err
                   | Inr p \<Rightarrow> modInv p n)
                else Inr (modPow_loop 1 e b' n)))"
  by pat_completeness auto
termination
  by (relation "measure (\<lambda>(b, e, n). if e < 0 then 1 else 0)") (auto simp: abs_js_def)

declare modPow.simps [simp del]

section \<open>Secure random numbers\<close>

text \<open>
  The bytes come from \<^verbatim>\<open>self.crypto.getRandomValues\<close>, which is outside the bundle.
  The model takes the source as the sequence of bytes it is going to deliver; a call
  reads the first bytes and leaves the rest.
\<close>

type_synonym entropy = "nat \<Rightarrow> 8 word"

definition getRandomValues :: "nat \<Rightarrow> entropy \<Rightarrow> 8 word list \<times> entropy" where
  "getRandomValues len src = (map src [0..<len], \<lambda>i. src (i + len))"

definition fromBuffer :: "8 word list \<Rightarrow> int" where
  "fromBuffer buf = foldl (\<lambda>ret i. push_bit 8 ret + uint i) 0 buf"

definition randBytesSync :: "int \<Rightarrow> bool \<Rightarrow> entropy \<Rightarrow> (error + 8 word list) \<times> entropy" where
  "randBytesSync byteLength forceLength src =
     (if byteLength < 1 then (Inl (InvalidArgument ''byteLength MUST be > 0''), src)
      else (case getRandomValues (nat byteLength) src of
              (buf, src') \<Rightarrow>
                (Inr (if forceLength then buf[0 := buf ! 0 OR 128] else buf), src')))"

text \<open>
  \<^verbatim>\<open>Math.ceil(bitLength / 8)\<close> on an integer bit length \<open>bits\<close> is \<open>(bits + 7) div 8\<close>.
\<close>

definition randBitsSync :: "int \<Rightarrow> bool \<Rightarrow> entropy \<Rightarrow> (error + 8 word list) \<times> entropy" where
  "randBitsSync bits forceLength src =
     (if bits < 1 then (Inl (InvalidArgument ''bitLength MUST be > 0''), src)
      else
        (let byteLength = (bits + 7) div 8
         in case randBytesSync byteLength False src of
              (Inl e, src') \<Rightarrow> (Inl e, src')
            | (Inr rndBytes, src') \<Rightarrow>
                (let bitLengthMod8 = bits mod 8;
                     cleared = (if bitLengthMod8 \<noteq> 0
                                then rndBytes[0 := rndBytes ! 0 AND (2 ^ nat bitLengthMod8 - 1)]
                                else rndBytes);
                     forced = (if forceLength
                               then (let mask = (if bitLengthMod8 \<noteq> 0
                                                 then 2 ^ nat (bitLengthMod8 - 1) else 128)
                                     in cleared[0 := cleared ! 0 OR mask])
                               else cleared)
                 in (Inr forced, src'))))"



text \<open>
  The rejection sampling of \<^verbatim>\<open>randBetween\<close> draws until a value fits: nothing bounds the
  number of draws, so the loop is a partial function. The parameters \<^verbatim>\<open>max\<close> and \<^verbatim>\<open>min\<close>
  are \<open>mx\<close> and \<open>mn\<close> here.
\<close>

partial_function (option) randBetween_loop ::
  "int \<Rightarrow> int \<Rightarrow> entropy \<Rightarrow> ((error + int) \<times> entropy) option" where
  "randBetween_loop bitLen interval src =
     (case randBitsSync bitLen False src of
        (Inl e, src') \<Rightarrow> Some (Inl e, src')
      | (Inr buf, src') \<Rightarrow>
          (let rnd = fromBuffer buf
           in if rnd > interval then randBetween_loop bitLen interval src'
              else Some (Inr rnd, src')))"

declare randBetween_loop.simps [code]

definition randBetween :: "int \<Rightarrow> int \<Rightarrow> entropy \<Rightarrow> ((error + int) \<times> entropy) option" where
  "randBetween mx mn src =
     (if mx \<le> mn then Some (Inl (InvalidArgument ''Arguments MUST be: max > min''), src)
      else
        (let interval = mx - mn;
             bitLen = bitLength interval
         in case randBetween_loop bitLen interval src of
              None \<Rightarrow> None
            | Some (Inl e, src') \<Rightarrow> Some (Inl e, src')
            | Some (Inr rnd, src') \<Rightarrow> Some (Inr (rnd + mn), src')))"

section \<open>The primality test\<close>

definition firstPrimes :: "int list" where
  "firstPrimes =
    [
     3, 5, 7, 11, 13, 17, 19, 23, 29, 31, 37, 41, 43, 47,
     53, 59, 61, 67, 71, 73, 79, 83, 89, 97, 101, 103, 107, 109,
     113, 127, 131, 137, 139, 149, 151, 157, 163, 167, 173, 179, 181, 191,
     193, 197, 199, 211, 223, 227, 229, 233, 239, 241, 251, 257, 263, 269,
     271, 277, 281, 283, 293, 307, 311, 313, 317, 331, 337, 347, 349, 353,
     359, 367, 373, 379, 383, 389, 397, 401, 409, 419, 421, 431, 433, 439,
     443, 449, 457, 461, 463, 467, 479, 487, 491, 499, 503, 509, 521, 523,
     541, 547, 557, 563, 569, 571, 577, 587, 593, 599, 601, 607, 613, 617,
     619, 631, 641, 643, 647, 653, 659, 661, 673, 677, 683, 691, 701, 709,
     719, 727, 733, 739, 743, 751, 757, 761, 769, 773, 787, 797, 809, 811,
     821, 823, 827, 829, 839, 853, 857, 859, 863, 877, 881, 883, 887, 907,
     911, 919, 929, 937, 941, 947, 953, 967, 971, 977, 983, 991, 997, 1009,
     1013, 1019, 1021, 1031, 1033, 1039, 1049, 1051, 1061, 1063, 1069, 1087, 1091, 1093,
     1097, 1103, 1109, 1117, 1123, 1129, 1151, 1153, 1163, 1171, 1181, 1187, 1193, 1201,
     1213, 1217, 1223, 1229, 1231, 1237, 1249, 1259, 1277, 1279, 1283, 1289, 1291, 1297,
     1301, 1303, 1307, 1319, 1321, 1327, 1361, 1367, 1373, 1381, 1399, 1409, 1423, 1427,
     1429, 1433, 1439, 1447, 1451, 1453, 1459, 1471, 1481, 1483, 1487, 1489, 1493, 1499,
     1511, 1523, 1531, 1543, 1549, 1553, 1559, 1567, 1571, 1579, 1583, 1597
    ]"

text \<open>
  The trial division of \<^verbatim>\<open>_isProbablyPrime\<close>: the \<^verbatim>\<open>for\<close> loop runs while table entries
  are left and the entry is at most \<open>w\<close>; \<open>None\<close> is the loop left without a \<^verbatim>\<open>return\<close>.
\<close>

fun trial_division :: "int list \<Rightarrow> int \<Rightarrow> bool option" where
  "trial_division [] w = None"
| "trial_division (p # ps) w =
     (if p \<le> w then
        (if w = p then Some True
         else if bigint_rem w p = 0 then Some False
         else trial_division ps w)
      else None)"

text \<open>The loop that counts the factors two of \<open>w - 1\<close>; on zero it would not end.\<close>

partial_function (option) factor_twos :: "int \<Rightarrow> int \<Rightarrow> int option" where
  "factor_twos aux a =
     (if bigint_rem aux 2 = 0 then factor_twos (bigint_div aux 2) (a + 1) else Some a)"

declare factor_twos.simps [code]

text \<open>
  The inner \<^verbatim>\<open>while (j < a)\<close> of a round. \<open>Inr None\<close> is its \<^verbatim>\<open>return false\<close>,
  \<open>Inr (Some z)\<close> the loop left (by \<^verbatim>\<open>break\<close> or by its test) with that \<open>z\<close>.
\<close>

function squarings :: "int \<Rightarrow> int \<Rightarrow> int \<Rightarrow> int \<Rightarrow> int \<Rightarrow> error + int option" where
  "squarings w d a z j =
     (if j < a then
        (case modPow z 2 w of
           Inl e \<Rightarrow> Inl e
         | Inr z' \<Rightarrow>
             if z' = d then Inr (Some z')
             else if z' = 1 then Inr None
             else squarings w d a z' (j + 1))
      else Inr (Some z))"
  by pat_completeness auto
termination
  by (relation "measure (\<lambda>(w, d, a, z, j). nat (a - j))") auto

declare squarings.simps [simp del]

text \<open>
  One pass through the body of the \<^verbatim>\<open>do\<close> loop: \<open>Inr True\<close> when the body reaches the
  loop test (by \<^verbatim>\<open>continue\<close> or by falling through), \<open>Inr False\<close> when it returns false.
\<close>

definition witness_round ::
  "int \<Rightarrow> int \<Rightarrow> int \<Rightarrow> int \<Rightarrow> entropy \<Rightarrow> ((error + bool) \<times> entropy) option" where
  "witness_round w d m a src =
     (case randBetween d 2 src of
        None \<Rightarrow> None
      | Some (Inl e, src') \<Rightarrow> Some (Inl e, src')
      | Some (Inr b, src') \<Rightarrow>
          (case modPow b m w of
             Inl e \<Rightarrow> Some (Inl e, src')
           | Inr z \<Rightarrow>
               if z = 1 \<or> z = d then Some (Inr True, src')
               else (case squarings w d a z 1 of
                       Inl e \<Rightarrow> Some (Inl e, src')
                     | Inr None \<Rightarrow> Some (Inr False, src')
                     | Inr (Some z') \<Rightarrow>
                         if z' \<noteq> d then Some (Inr False, src')
                         else Some (Inr True, src'))))"

text \<open>
  The \<^verbatim>\<open>do { ... } while (--iterations !== 0)\<close> loop. The counter is a JavaScript number,
  modelled as an integer: the test decrements first and compares with zero after.
\<close>

partial_function (option) witness_loop ::
  "int \<Rightarrow> int \<Rightarrow> int \<Rightarrow> int \<Rightarrow> int \<Rightarrow> entropy \<Rightarrow> ((error + bool) \<times> entropy) option" where
  "witness_loop w d m a iterations src =
     (case witness_round w d m a src of
        None \<Rightarrow> None
      | Some (Inl e, src') \<Rightarrow> Some (Inl e, src')
      | Some (Inr pass, src') \<Rightarrow>
          if \<not> pass then Some (Inr False, src')
          else if iterations - 1 \<noteq> 0 then witness_loop w d m a (iterations - 1) src'
          else Some (Inr True, src'))"

declare witness_loop.simps [code]

text \<open>
  For comparison with the loop above, the reading "repeat at most \<open>k\<close> times": \<open>k\<close> rounds
  one after the other, stopping at the first round that does not pass.
\<close>

primrec rounds_upto ::
  "nat \<Rightarrow> int \<Rightarrow> int \<Rightarrow> int \<Rightarrow> int \<Rightarrow> entropy \<Rightarrow> ((error + bool) \<times> entropy) option" where
  "rounds_upto 0 w d m a src = Some (Inr True, src)"
| "rounds_upto (Suc k) w d m a src =
     (case witness_round w d m a src of
        None \<Rightarrow> None
      | Some (Inl e, src') \<Rightarrow> Some (Inl e, src')
      | Some (Inr pass, src') \<Rightarrow>
          if pass then rounds_upto k w d m a src' else Some (Inr False, src'))"

text \<open>The function \<^verbatim>\<open>_isProbablyPrime\<close> of the bundle.\<close>

definition isProbablyPrime_core ::
  "int \<Rightarrow> int \<Rightarrow> entropy \<Rightarrow> ((error + bool) \<times> entropy) option" where
  "isProbablyPrime_core w iterations src =
     (if w = 2 then Some (Inr True, src)
      else if w AND 1 = 0 \<or> w = 1 then Some (Inr False, src)
      else (case trial_division firstPrimes w of
              Some r \<Rightarrow> Some (Inr r, src)
            | None \<Rightarrow>
                (let d = w - 1
                 in case factor_twos d 0 of
                      None \<Rightarrow> None
                    | Some a \<Rightarrow>
                        (let m = bigint_div d (2 ^ nat a)
                         in witness_loop w d m a iterations src))))"

section \<open>Prime generation\<close>




section \<open>The parallel prime search\<close>

text \<open>
  \<^verbatim>\<open>prime\<close> starts \<open>hardwareConcurrency - 1\<close> workers and hands each a candidate. The
  main thread handles one worker message at a time, so the search is the handler
  \<^verbatim>\<open>_onmessage\<close> applied to the messages in the order of their arrival. A worker is
  known by its place in the order of creation. The promise that \<^verbatim>\<open>prime\<close> returns is
  settled by the first call of one of its two functions and unchanged by every later
  call, which is the rule of the language for promises.
\<close>

record task =
  task_rnd :: int
  task_iterations :: int
  task_id :: int

record report =
  msg_isPrime :: bool
  msg_value :: int
  msg_id :: int

datatype promise = Pending | Resolved int | Rejected error

record coordinator =
  workerList :: "nat list"
  terminated :: "nat set"
  result :: promise
  posted :: "(nat \<times> task) list"

definition resolve :: "int \<Rightarrow> promise \<Rightarrow> promise" where
  "resolve v p = (case p of Pending \<Rightarrow> Resolved v | _ \<Rightarrow> p)"


text \<open>
  \<open>posted\<close> lists the messages that reached a worker. A message for a worker that has
  been terminated reaches nobody, and the handler swallows what the call may throw.
\<close>

definition postMessage :: "nat \<Rightarrow> task \<Rightarrow> coordinator \<Rightarrow> coordinator" where
  "postMessage worker msg c =
     (if worker \<in> terminated c then c else c\<lparr>posted := posted c @ [(worker, msg)]\<rparr>)"

text \<open>The handler \<^verbatim>\<open>_onmessage\<close> inside \<^verbatim>\<open>prime\<close>.\<close>

definition prime_onmessage ::
  "int \<Rightarrow> int \<Rightarrow> report \<Rightarrow> nat \<Rightarrow> coordinator \<times> entropy \<Rightarrow> coordinator \<times> entropy" where
  "prime_onmessage bits iterations msg newWorker st =
     (case st of
        (c, src) \<Rightarrow>
          if msg_isPrime msg then
            (c\<lparr>terminated := terminated c \<union> set (workerList c),
               workerList := [],
               result := resolve (msg_value msg) (result c)\<rparr>, src)
          else
            (case randBitsSync bits True src of
               (Inl e, src') \<Rightarrow> (c, src')
             | (Inr buf, src') \<Rightarrow>
                 (let rnd = fromBuffer buf;
                      msgToWorker = \<lparr>task_rnd = rnd, task_iterations = iterations,
                                     task_id = msg_id msg\<rparr>
                  in (postMessage newWorker msgToWorker c, src'))))"




text \<open>
  A run of the search after \<^verbatim>\<open>prime\<close> has returned. \<open>prime_deliver\<close> hands the handler
  any list of messages, each with the worker it came from. \<open>prime_run\<close> lets the workers
  produce them: an event names a posted message by its place in \<open>posted\<close> and gives the
  random source of the worker that tests it.
\<close>

fun prime_deliver ::
  "int \<Rightarrow> int \<Rightarrow> (report \<times> nat) list \<Rightarrow> coordinator \<times> entropy \<Rightarrow> coordinator \<times> entropy" where
  "prime_deliver bits iterations [] st = st"
| "prime_deliver bits iterations ((msg, worker) # rest) st =
     prime_deliver bits iterations rest (prime_onmessage bits iterations msg worker st)"



section \<open>Facts about the arithmetic primitives\<close>

lemma bigint_rem_nonneg: "0 \<le> a \<Longrightarrow> 0 < b \<Longrightarrow> bigint_rem a b = a mod b"
  by (cases "a = 0") (simp_all add: bigint_rem_def)

lemma bigint_div_nonneg: "0 \<le> a \<Longrightarrow> 0 < b \<Longrightarrow> bigint_div a b = a div b"
  by (cases "a = 0") (simp_all add: bigint_div_def)

lemma eGcd_loop_bezout:
  "0 \<le> a \<Longrightarrow> 0 \<le> b \<Longrightarrow> A * u + B * v = a \<Longrightarrow> A * x + B * y = b \<Longrightarrow>
   egcd_g (eGcd_loop a b x y u v) = gcd a b
   \<and> A * egcd_x (eGcd_loop a b x y u v) + B * egcd_y (eGcd_loop a b x y u v)
       = egcd_g (eGcd_loop a b x y u v)"
proof (induction a b x y u v rule: eGcd_loop.induct)
  case (1 a b x y u v)
  show ?case
  proof (cases "a = 0")
    case True
    with "1.prems" show ?thesis by (simp add: eGcd_loop.simps)
  next
    case False
    with "1.prems" have apos: "0 < a" by simp
    have q: "bigint_div b a = b div a" and r: "bigint_rem b a = b mod a"
      using apos "1.prems" by (simp_all add: bigint_div_nonneg bigint_rem_nonneg)
    have r0: "0 \<le> b mod a" using apos by simp
    have e1: "A * (x - u * (b div a)) + B * (y - v * (b div a)) = b mod a"
    proof -
      have "A * (x - u * (b div a)) + B * (y - v * (b div a))
            = (A * x + B * y) - (A * u + B * v) * (b div a)"
        by (simp add: algebra_simps)
      also have "\<dots> = b - a * (b div a)" using "1.prems" by simp
      also have "\<dots> = b mod a" by (simp add: minus_mult_div_eq_mod)
      finally show ?thesis .
    qed
    have IH: "egcd_g (eGcd_loop (b mod a) a u v (x - u * (b div a)) (y - v * (b div a))) = gcd (b mod a) a
      \<and> A * egcd_x (eGcd_loop (b mod a) a u v (x - u * (b div a)) (y - v * (b div a)))
        + B * egcd_y (eGcd_loop (b mod a) a u v (x - u * (b div a)) (y - v * (b div a)))
        = egcd_g (eGcd_loop (b mod a) a u v (x - u * (b div a)) (y - v * (b div a)))"
      using "1.IH" [OF False refl refl refl refl] r0 apos "1.prems" e1
      by (simp add: q r)
    have g: "gcd (b mod a) a = gcd a b"
      by (metis gcd.commute gcd_red_int)
    have unf: "eGcd_loop a b x y u v
               = eGcd_loop (b mod a) a u v (x - u * (b div a)) (y - v * (b div a))"
      using False by (subst eGcd_loop.simps) (simp add: q r Let_def)
    show ?thesis using IH g unf by simp
  qed
qed

lemma eGcd_correct:
  assumes "0 < a" "0 < b"
  shows "\<exists>r. eGcd a b = Inr r \<and> a * egcd_x r + b * egcd_y r = egcd_g r \<and> egcd_g r = gcd a b"
proof -
  have "egcd_g (eGcd_loop a b 0 1 1 0) = gcd a b
   \<and> a * egcd_x (eGcd_loop a b 0 1 1 0) + b * egcd_y (eGcd_loop a b 0 1 1 0)
       = egcd_g (eGcd_loop a b 0 1 1 0)"
    using assms by (intro eGcd_loop_bezout) simp_all
  then show ?thesis using assms by (simp add: eGcd_def)
qed

lemma and_one_zero_iff_even: "(v::int) AND 1 = 0 \<longleftrightarrow> even v"
  by (simp add: and_one_eq mod_2_eq_odd)

lemma or_and_one_zero_iff: "((a::int) OR b) AND 1 = 0 \<longleftrightarrow> even a \<and> even b"
  by (simp add: and_one_zero_iff_even even_or_iff)

lemma gcd_strip_correct:
  "0 < v \<Longrightarrow> \<exists>r k. gcd_strip v = Some r \<and> odd r \<and> 0 < r \<and> v = r * 2 ^ k"
proof (induction "nat v" arbitrary: v rule: less_induct)
  case less
  show ?case
  proof (cases "even v")
    case False
    then have "gcd_strip v = Some v"
      by (subst gcd_strip.simps) (simp add: and_one_zero_iff_even)
    with False less.prems show ?thesis
      by (intro exI [of _ v] exI [of _ 0]) simp
  next
    case True
    then obtain h where h: "v = 2 * h" by (elim evenE)
    with less.prems have hpos: "0 < h" by simp
    have "nat h < nat v" using h hpos by simp
    from less.hyps [OF this hpos]
    obtain r k where rk: "gcd_strip h = Some r" "odd r" "0 < r" "h = r * 2 ^ k" by blast
    have "gcd_strip v = gcd_strip h"
      using True h by (subst gcd_strip.simps) (simp add: and_one_zero_iff_even drop_bit_eq_div)
    with rk h show ?thesis
      by (intro exI [of _ r] exI [of _ "Suc k"]) simp
  qed
qed

lemma gcd_shift_correct:
  "0 < a \<Longrightarrow> 0 < b \<Longrightarrow>
   \<exists>a' b' k. gcd_shift a b s = Some (a', b', s + int k) \<and> a = a' * 2 ^ k \<and> b = b' * 2 ^ k
             \<and> 0 < a' \<and> 0 < b' \<and> (odd a' \<or> odd b')"
proof (induction "nat a" arbitrary: a b s rule: less_induct)
  case less
  show ?case
  proof (cases "even a \<and> even b")
    case False
    then have "gcd_shift a b s = Some (a, b, s)"
      by (subst gcd_shift.simps) (auto simp: or_and_one_zero_iff)
    with False less.prems show ?thesis
      by (intro exI [of _ a] exI [of _ b] exI [of _ 0]) auto
  next
    case True
    then obtain ha hb where h: "a = 2 * ha" "b = 2 * hb" by (auto elim!: evenE)
    with less.prems have pos: "0 < ha" "0 < hb" by simp_all
    have "nat ha < nat a" using h pos by simp
    from less.hyps [OF this pos, of "s + 1"]
    obtain a' b' k where rk: "gcd_shift ha hb (s + 1) = Some (a', b', s + 1 + int k)"
      "ha = a' * 2 ^ k" "hb = b' * 2 ^ k" "0 < a'" "0 < b'" "odd a' \<or> odd b'" by blast
    have "gcd_shift a b s = gcd_shift ha hb (s + 1)"
      using True h by (subst gcd_shift.simps) (simp add: or_and_one_zero_iff drop_bit_eq_div)
    with rk h show ?thesis
      by (intro exI [of _ a'] exI [of _ b'] exI [of _ "Suc k"]) simp
  qed
qed

lemma gcd_odd_pow2: "odd (a::int) \<Longrightarrow> gcd a (r * 2 ^ k) = gcd a r"
proof -
  assume "odd a"
  then have "coprime a (2 ^ k)" by simp
  then show ?thesis
    by (metis gcd_mult_right_right_cancel)
qed

lemma gcd_reduce_correct:
  "0 < a \<Longrightarrow> odd a \<Longrightarrow> 0 < b \<Longrightarrow> gcd_reduce a b = Some (gcd a b)"
proof (induction "nat (a + b)" arbitrary: a b rule: less_induct)
  case less
  from gcd_strip_correct [OF \<open>0 < b\<close>]
  obtain r k where rk: "gcd_strip b = Some r" "odd r" "0 < r" "b = r * 2 ^ k" by blast
  have rb: "r \<le> b"
  proof -
    have "r * 1 \<le> r * 2 ^ k" using rk(3) by (intro mult_left_mono) simp_all
    then show ?thesis using rk(4) by simp
  qed
  have g: "gcd a b = gcd a r" using rk(4) less.prems(2) by (simp add: gcd_odd_pow2)
  show ?case
  proof (cases "a = r")
    case True
    then have "gcd_reduce a b = Some a"
      using rk(1) by (subst gcd_reduce.simps) simp
    then show ?thesis using g True less.prems by simp
  next
    case False
    show ?thesis
    proof (cases "a > r")
      case True
      have m: "nat (r + (a - r)) < nat (a + b)" using less.prems by simp
      have "gcd_reduce a b = gcd_reduce r (a - r)"
        using rk(1) True by (subst gcd_reduce.simps) simp
      also have "\<dots> = Some (gcd r (a - r))"
        using less.hyps [OF m] rk True by simp
      also have "gcd r (a - r) = gcd a r"
        by (metis gcd.commute gcd_diff1)
      finally show ?thesis using g by simp
    next
      case F2: False
      with False have lt: "a < r" by simp
      have m: "nat (a + (r - a)) < nat (a + b)" using less.prems rb by simp
      have "gcd_reduce a b = gcd_reduce a (r - a)"
        using rk(1) lt by (subst gcd_reduce.simps) simp
      also have "\<dots> = Some (gcd a (r - a))"
        using less.hyps [OF m] less.prems lt by simp
      also have "gcd a (r - a) = gcd a r"
        by (metis gcd.commute gcd_diff1)
      finally show ?thesis using g by simp
    qed
  qed
qed

lemma gcd_js_correct: "gcd_js a b = Some (gcd a b)"
proof (cases "a = 0 \<or> b = 0")
  case True
  then show ?thesis by (auto simp: gcd_js_def abs_js_def Let_def)
next
  case False
  then have pos: "0 < \<bar>a\<bar>" "0 < \<bar>b\<bar>" by simp_all
  have ab: "abs_js a = \<bar>a\<bar>" "abs_js b = \<bar>b\<bar>" by (simp_all add: abs_js_def)
  from gcd_shift_correct [OF pos, of 0]
  obtain a' b' k where sh: "gcd_shift \<bar>a\<bar> \<bar>b\<bar> 0 = Some (a', b', int k)"
    "\<bar>a\<bar> = a' * 2 ^ k" "\<bar>b\<bar> = b' * 2 ^ k" "0 < a'" "0 < b'" "odd a' \<or> odd b'" by auto
  from gcd_strip_correct [OF \<open>0 < a'\<close>]
  obtain r j where st: "gcd_strip a' = Some r" "odd r" "0 < r" "a' = r * 2 ^ j" by blast
  have red: "gcd_reduce r b' = Some (gcd r b')"
    using st sh by (intro gcd_reduce_correct) simp_all
  have g1: "gcd a' b' = gcd r b'"
  proof (cases "odd a'")
    case True
    with st(4) have "j = 0" by (cases j) simp_all
    with st(4) show ?thesis by simp
  next
    case False
    with sh(6) have "odd b'" by simp
    then show ?thesis using st(4) by (metis gcd.commute gcd_odd_pow2)
  qed
  have "gcd a b = gcd \<bar>a\<bar> \<bar>b\<bar>" by simp
  also have "\<dots> = gcd (a' * 2 ^ k) (b' * 2 ^ k)" using sh by simp
  also have "\<dots> = gcd a' b' * 2 ^ k"
    by (simp add: gcd_mult_right gcd.commute abs_mult)
  finally have g2: "gcd a b = gcd r b' * 2 ^ k" using g1 by simp
  have "gcd_js a b = Some (push_bit k (gcd r b'))"
    using False sh(1) st(1) red by (simp add: gcd_js_def Let_def ab)
  then show ?thesis using g2 by (simp add: push_bit_eq_mult)
qed

lemma toZn_range: "0 < n \<Longrightarrow> toZn a n = Inr (a mod n)"
proof -
  assume n: "0 < n"
  have "(if bigint_rem a n < 0 then bigint_rem a n + n else bigint_rem a n) = a mod n"
  proof (cases "0 \<le> a")
    case True
    with n show ?thesis by (simp add: bigint_rem_nonneg not_less)
  next
    case False
    with n have neg: "a < 0" by simp
    have eq: "bigint_rem a n = - ((- a) mod n)"
      using n neg by (simp add: bigint_rem_def)
    show ?thesis
    proof (cases "(- a) mod n = 0")
      case True
      then have "n dvd a" by (simp add: mod_eq_0_iff_dvd)
      then show ?thesis using eq True by simp
    next
      case False
      have pos: "0 < (- a) mod n" using False n
        by (simp add: less_le)
      have "a mod n = n - (- a) mod n"
        using False n by (metis minus_minus zmod_zminus1_eq_if)
      then show ?thesis using eq pos by simp
    qed
  qed
  with n show ?thesis by (simp add: toZn_def Let_def)
qed

lemma bigint_div_exact: "d dvd a \<Longrightarrow> 0 < d \<Longrightarrow> bigint_div a d = a div d"
proof -
  assume dv: "d dvd a" and d: "0 < d"
  then obtain k where k: "a = d * k" by (elim dvdE)
  have s: "sgn a = sgn k" using d by (simp add: k sgn_mult)
  have m: "\<bar>a\<bar> div d = \<bar>k\<bar>" using d by (simp add: k abs_mult)
  have q: "a div d = k" using d by (simp add: k)
  have "sgn a * (\<bar>a\<bar> div d) = sgn k * \<bar>k\<bar>" by (simp only: s m)
  also have "\<dots> = k" by (rule mult_sgn_abs)
  finally show ?thesis using d q by (simp add: bigint_div_def)
qed

lemma lcm_js_formula:
  assumes "a \<noteq> 0 \<or> b \<noteq> 0"
  shows "lcm_js a b = Some (Inr (abs_js (bigint_div a (gcd a b) * b)))"
    and "lcm_js a b = Some (Inr (lcm a b))"
proof -
  have g: "0 < gcd a b" using assms by (simp add: less_le)
  show f: "lcm_js a b = Some (Inr (abs_js (bigint_div a (gcd a b) * b)))"
    using assms g by (auto simp: lcm_js_def gcd_js_correct)
  obtain k where k: "a = gcd a b * k" using gcd_dvd1 [of a b] by (elim dvdE)
  have dk: "bigint_div a (gcd a b) = k"
  proof -
    have "bigint_div a (gcd a b) = a div gcd a b"
      using g by (intro bigint_div_exact) simp_all
    also have "\<dots> = k" using g by (subst k) simp
    finally show ?thesis .
  qed
  have "a * b div gcd a b = k * b"
    using g by (subst k) simp
  then have "lcm a b = \<bar>k * b\<bar>"
    by (simp add: lcm_gcd)
  then show "lcm_js a b = Some (Inr (lcm a b))"
    using f dk by (simp add: abs_js_def)
qed

lemma modInv_correct:
  assumes n: "1 < n" and co: "gcd a n = 1"
  shows "\<exists>v. modInv a n = Inr v \<and> 0 \<le> v \<and> v < n \<and> (a * v) mod n = 1"
proof -
  have tz: "toZn a n = Inr (a mod n)" using n by (simp add: toZn_range)
  have ne: "a mod n \<noteq> 0"
  proof
    assume "a mod n = 0"
    then have "n dvd a" by (simp add: mod_eq_0_iff_dvd)
    then have "gcd a n = n" using n by (simp add: gcd_proj2_iff)
    with co n show False by simp
  qed
  have pos: "0 < a mod n" using ne n by (simp add: less_le)
  have npos: "0 < n" using n by simp
  from eGcd_correct [OF pos npos]
  obtain r where r: "eGcd (a mod n) n = Inr r"
    "(a mod n) * egcd_x r + n * egcd_y r = egcd_g r" "egcd_g r = gcd (a mod n) n"
    by auto
  have "gcd (a mod n) n = gcd a n"
    by (subst gcd_red_int [of a n]) (rule gcd.commute)
  then have g1: "egcd_g r = 1" using r(3) co by simp
  have res: "modInv a n = Inr (egcd_x r mod n)"
    using tz r(1) g1 n by (simp add: modInv_def toZn_range)
  have "(a * (egcd_x r mod n)) mod n = ((a mod n) * egcd_x r) mod n"
    by (simp add: mod_mult_eq mod_mult_right_eq mod_mult_left_eq)
  also have "(a mod n) * egcd_x r = 1 - n * egcd_y r"
    using r(2) g1 by simp
  also have "(1 - n * egcd_y r) mod n = (1 - (n * egcd_y r) mod n) mod n"
    by (simp only: mod_diff_right_eq)
  also have "\<dots> = 1 mod n"
    by simp
  also have "\<dots> = 1" using n by simp
  finally have "(a * (egcd_x r mod n)) mod n = 1" .
  then show ?thesis using res n by simp
qed

lemma modPow_loop_power:
  "0 < n \<Longrightarrow> 0 \<le> r \<Longrightarrow> 0 \<le> b \<Longrightarrow> r < n \<Longrightarrow>
   modPow_loop r e b n = (r * b ^ nat e) mod n"
proof (induction r e b n rule: modPow_loop.induct)
  case (1 r e b n)
  show ?case
  proof (cases "e > 0")
    case False
    then show ?thesis using "1.prems" by (simp add: modPow_loop.simps)
  next
    case True
    let ?r' = "if bigint_rem e 2 = 1 then bigint_rem (r * b) n else r"
    have e2: "bigint_rem e 2 = e mod 2" "bigint_div e 2 = e div 2"
      using True by (simp_all add: bigint_rem_nonneg bigint_div_nonneg)
    have r': "?r' = (if odd e then (r * b) mod n else r)"
      using "1.prems" by (auto simp: e2 bigint_rem_nonneg mod_2_eq_odd)
    have b': "bigint_rem (b ^ 2) n = (b ^ 2) mod n"
      using "1.prems" by (simp add: bigint_rem_nonneg)
    have IH: "modPow_loop ?r' (bigint_div e 2) (bigint_rem (b ^ 2) n) n
              = (?r' * (bigint_rem (b ^ 2) n) ^ nat (bigint_div e 2)) mod n"
      using "1.prems" by (intro "1.IH" [OF True]) (auto simp: r' b')
    have unf: "modPow_loop r e b n = modPow_loop ?r' (bigint_div e 2) (bigint_rem (b ^ 2) n) n"
      using True by (subst modPow_loop.simps) simp
    have pw: "(x * ((b ^ 2) mod n) ^ nat (e div 2)) mod n = (x * b ^ (2 * nat (e div 2))) mod n"
      for x
    proof -
      have "(x * ((b ^ 2) mod n) ^ nat (e div 2)) mod n
            = (x * (((b ^ 2) mod n) ^ nat (e div 2) mod n)) mod n"
        by (simp add: mod_mult_right_eq)
      also have "((b ^ 2) mod n) ^ nat (e div 2) mod n = (b ^ 2) ^ nat (e div 2) mod n"
        by (simp add: power_mod)
      also have "(b ^ 2) ^ nat (e div 2) = b ^ (2 * nat (e div 2))"
        by (simp add: power_mult)
      finally show ?thesis by (simp add: mod_mult_right_eq)
    qed
    have split: "nat e = 2 * nat (e div 2) + (if odd e then 1 else 0)"
      using True by (auto elim!: oddE evenE simp: nat_mult_distrib nat_add_distrib)
    have "(?r' * ((b ^ 2) mod n) ^ nat (e div 2)) mod n = (r * b ^ nat e) mod n"
    proof (cases "odd e")
      case True
      have "((r * b) mod n * ((b ^ 2) mod n) ^ nat (e div 2)) mod n
            = ((r * b) mod n * b ^ (2 * nat (e div 2))) mod n"
        by (rule pw)
      also have "\<dots> = ((r * b) * b ^ (2 * nat (e div 2))) mod n"
        by (simp add: mod_mult_left_eq)
      also have "(r * b) * b ^ (2 * nat (e div 2)) = r * b ^ (2 * nat (e div 2) + 1)"
        by simp
      also have "2 * nat (e div 2) + 1 = nat e" using True split by simp
      finally show ?thesis using True r' by simp
    next
      case False
      have "(r * ((b ^ 2) mod n) ^ nat (e div 2)) mod n
            = (r * b ^ (2 * nat (e div 2))) mod n"
        by (rule pw)
      also have "2 * nat (e div 2) = nat e" using False split by simp
      finally show ?thesis using False r' by simp
    qed
    then show ?thesis using unf IH by (simp add: e2 b')
  qed
qed

lemma modPow_nonneg_exponent:
  assumes "1 < n" "0 \<le> e"
  shows "modPow b e n = Inr ((b mod n) ^ nat e mod n)"
proof -
  have "modPow_loop 1 e (b mod n) n = (1 * (b mod n) ^ nat e) mod n"
    using assms by (intro modPow_loop_power) simp_all
  then show ?thesis using assms by (subst modPow.simps) (simp add: toZn_range)
qed

section \<open>The claims about the arithmetic primitives\<close>

text \<open>
  C3. For positive \<open>a\<close> and \<open>b\<close>, \<^verbatim>\<open>eGcd\<close> returns a triple \<open>(g, x, y)\<close> with
  \<open>a * x + b * y = g\<close>, where \<open>g\<close> is what \<^verbatim>\<open>gcd\<close> of the bundle returns and the greatest
  common divisor of \<open>a\<close> and \<open>b\<close>. When \<open>a\<close> or \<open>b\<close> is not positive it fails with the
  argument error.
\<close>

theorem eGcd_bezout_and_gcd:
  "(0 < a \<and> 0 < b \<longrightarrow>
      (\<exists>r. eGcd a b = Inr r
           \<and> a * egcd_x r + b * egcd_y r = egcd_g r
           \<and> gcd_js a b = Some (egcd_g r)
           \<and> egcd_g r = gcd a b))
   \<and> (a \<le> 0 \<or> b \<le> 0 \<longrightarrow> eGcd a b = Inl (InvalidArgument ''a and b MUST be > 0''))"
proof (intro conjI impI)
  assume "0 < a \<and> 0 < b"
  then obtain r where "eGcd a b = Inr r" "a * egcd_x r + b * egcd_y r = egcd_g r"
    "egcd_g r = gcd a b"
    using eGcd_correct [of a b] by blast
  then show "\<exists>r. eGcd a b = Inr r \<and> a * egcd_x r + b * egcd_y r = egcd_g r
                 \<and> gcd_js a b = Some (egcd_g r) \<and> egcd_g r = gcd a b"
    by (simp add: gcd_js_correct)
next
  assume "a \<le> 0 \<or> b \<le> 0"
  then show "eGcd a b = Inl (InvalidArgument ''a and b MUST be > 0'')"
    by (simp add: eGcd_def)
qed

theorem eGcd_bezout_and_gcd_witness:
  "(0::int) < 12 \<and> (0::int) < 8
   \<and> (\<exists>r. eGcd 12 8 = Inr r \<and> 12 * egcd_x r + 8 * egcd_y r = egcd_g r
            \<and> gcd_js 12 8 = Some (egcd_g r) \<and> egcd_g r = gcd 12 8)
   \<and> ((0::int) \<le> 0 \<or> (5::int) \<le> 0)
   \<and> eGcd 0 5 = Inl (InvalidArgument ''a and b MUST be > 0'')"
  using eGcd_bezout_and_gcd [of 12 8] eGcd_bezout_and_gcd [of 0 5] by simp

text \<open>
  C7. For all integers \<open>a\<close> and \<open>b\<close>, \<^verbatim>\<open>gcd(a, b)\<close> and \<^verbatim>\<open>gcd(b, a)\<close> return the same
  value, \<^verbatim>\<open>gcd(a, 0)\<close> returns the absolute value of \<open>a\<close>, and the value returned is never
  negative.
\<close>

theorem gcd_js_symmetric_nonnegative:
  "gcd_js a b = gcd_js b a
   \<and> gcd_js a 0 = Some (abs_js a)
   \<and> (\<exists>g. gcd_js a b = Some g \<and> 0 \<le> g)"
  by (simp add: gcd_js_correct gcd.commute abs_js_def)

text \<open>
  C5, as stated, fails: \<^verbatim>\<open>lcm(0, 5)\<close> returns 0 although one of the inputs is not 0.
\<close>

theorem lcm_js_zero_operand_counterexample:
  "(5::int) \<noteq> 0 \<and> lcm_js 0 5 = Some (Inr 0)"
  by (simp add: lcm_js_def gcd_js_def abs_js_def bigint_div_def Let_def)

text \<open>
  C5, amended. When \<open>a\<close> or \<open>b\<close> is not 0, \<^verbatim>\<open>lcm(a, b)\<close> returns the absolute value of
  \<open>(a / gcd(a, b)) * b\<close>; \<^verbatim>\<open>lcm(0, 0)\<close> returns 0; and \<^verbatim>\<open>lcm(a, b)\<close> returns 0 exactly
  when at least one of the inputs is 0.
\<close>

theorem lcm_js_value_and_zero:
  "(a \<noteq> 0 \<or> b \<noteq> 0 \<longrightarrow>
      (\<exists>g. gcd_js a b = Some g \<and> lcm_js a b = Some (Inr (abs_js (bigint_div a g * b)))))
   \<and> lcm_js 0 0 = Some (Inr 0)
   \<and> (lcm_js a b = Some (Inr 0) \<longleftrightarrow> a = 0 \<or> b = 0)"
proof (intro conjI impI)
  assume "a \<noteq> 0 \<or> b \<noteq> 0"
  then show "\<exists>g. gcd_js a b = Some g \<and> lcm_js a b = Some (Inr (abs_js (bigint_div a g * b)))"
    by (simp add: gcd_js_correct lcm_js_formula(1))
next
  show "lcm_js 0 0 = Some (Inr 0)" by (simp add: lcm_js_def)
next
  show "lcm_js a b = Some (Inr 0) \<longleftrightarrow> a = 0 \<or> b = 0"
  proof (cases "a = 0 \<and> b = 0")
    case True
    then show ?thesis by (simp add: lcm_js_def)
  next
    case False
    then have "lcm_js a b = Some (Inr (lcm a b))" by (intro lcm_js_formula(2)) simp
    then show ?thesis by (simp add: lcm_0_iff_int)
  qed
qed

theorem lcm_js_value_and_zero_witness:
  "(-4::int) \<noteq> 0
   \<and> (\<exists>g. gcd_js (-4) 6 = Some g \<and> lcm_js (-4) 6 = Some (Inr (abs_js (bigint_div (-4) g * 6))))
   \<and> lcm_js (-4) 6 = Some (Inr 12)
   \<and> lcm_js (-4) 6 \<noteq> Some (Inr 0)"
proof -
  have g: "gcd_js (-4) 6 = Some 2" by code_simp
  have v: "lcm_js (-4) 6 = Some (Inr 12)"
    using lcm_js_value_and_zero [of "-4" 6] g
    by (simp add: abs_js_def bigint_div_def)
  show ?thesis using lcm_js_value_and_zero [of "-4" 6] v by simp
qed

text \<open>
  C6, as stated, fails at the modulus 1: 5 is coprime to 1, and \<^verbatim>\<open>modInv(5, 1)\<close> returns
  no value but fails with the argument error of \<^verbatim>\<open>eGcd\<close>.
\<close>

theorem modInv_modulus_one_counterexample:
  "(0::int) < 1 \<and> gcd_js 5 1 = Some 1
   \<and> modInv 5 1 = Inl (InvalidArgument ''a and b MUST be > 0'')"
  by (simp add: gcd_js_correct modInv_def toZn_def eGcd_def bigint_rem_def)

text \<open>
  C6, amended. For a modulus \<open>n > 1\<close> and an integer \<open>a\<close> for which \<^verbatim>\<open>gcd(a, n)\<close> is 1,
  \<^verbatim>\<open>modInv(a, n)\<close> returns a value \<open>v\<close> in \<open>[0, n)\<close> such that the residue of \<open>a * v\<close>
  modulo \<open>n\<close>, taken in \<open>[0, n)\<close> as \<^verbatim>\<open>toZn\<close> does, is 1.
\<close>

theorem modInv_inverts_coprime:
  assumes "1 < n" and "gcd_js a n = Some 1"
  shows "\<exists>v. modInv a n = Inr v \<and> 0 \<le> v \<and> v < n \<and> (a * v) mod n = 1
             \<and> toZn (a * v) n = Inr 1"
proof -
  have "gcd a n = 1" using assms(2) by (simp add: gcd_js_correct)
  from modInv_correct [OF assms(1) this]
  obtain v where v: "modInv a n = Inr v" "0 \<le> v" "v < n" "(a * v) mod n = 1" by blast
  then have "toZn (a * v) n = Inr 1" using assms(1) by (simp add: toZn_range)
  with v show ?thesis by blast
qed

theorem modInv_inverts_coprime_witness:
  "(1::int) < 7 \<and> gcd_js 4 7 = Some 1
   \<and> (\<exists>v. modInv 4 7 = Inr v \<and> 0 \<le> v \<and> v < 7 \<and> (4 * v) mod 7 = 1
           \<and> toZn (4 * v) 7 = Inr 1)"
proof -
  have h1: "(1::int) < 7" by simp
  have h2: "gcd_js 4 7 = Some 1" by code_simp
  show ?thesis using h1 h2 modInv_inverts_coprime [OF h1 h2] by simp
qed

text \<open>
  C4. \<^verbatim>\<open>modPow(b, e, n)\<close> fails with the argument error when \<open>n \<le> 0\<close> and returns 0 when
  \<open>n = 1\<close>. For \<open>n > 1\<close> and \<open>e \<ge> 0\<close> it returns a value in \<open>[0, n)\<close>, and
  \<^verbatim>\<open>modPow(b, 0, n)\<close> returns 1.
\<close>

theorem modPow_contract:
  "(n \<le> 0 \<longrightarrow> modPow b e n = Inl (InvalidArgument ''n must be > 0''))
   \<and> (n = 1 \<longrightarrow> modPow b e n = Inr 0)
   \<and> (1 < n \<and> 0 \<le> e \<longrightarrow> (\<exists>r. modPow b e n = Inr r \<and> 0 \<le> r \<and> r < n))
   \<and> (1 < n \<longrightarrow> modPow b 0 n = Inr 1)"
proof (intro conjI impI)
  assume "n \<le> 0"
  then show "modPow b e n = Inl (InvalidArgument ''n must be > 0'')"
    by (subst modPow.simps) simp
next
  assume "n = 1"
  then show "modPow b e n = Inr 0"
    by (subst modPow.simps) simp
next
  assume "1 < n \<and> 0 \<le> e"
  then show "\<exists>r. modPow b e n = Inr r \<and> 0 \<le> r \<and> r < n"
    by (simp add: modPow_nonneg_exponent)
next
  assume "1 < n"
  then show "modPow b 0 n = Inr 1"
    by (simp add: modPow_nonneg_exponent)
qed

theorem modPow_contract_witness:
  "((-3::int) \<le> 0) \<and> modPow 4 13 (-3) = Inl (InvalidArgument ''n must be > 0'')
   \<and> modPow 4 13 1 = Inr 0
   \<and> (1::int) < 497 \<and> (0::int) \<le> 13
   \<and> (\<exists>r. modPow 4 13 497 = Inr r \<and> 0 \<le> r \<and> r < 497)
   \<and> modPow 4 0 497 = Inr 1"
  using modPow_contract [of "-3" 4 13] modPow_contract [of 1 4 13]
    modPow_contract [of 497 4 13] modPow_contract [of 497 4 0]
  by simp

text \<open>
  C10. For a modulus \<open>n > 0\<close> and a multiple \<open>a\<close> of \<open>n\<close>, \<^verbatim>\<open>toZn(a, n)\<close> is 0 and the
  inversion fails inside \<^verbatim>\<open>eGcd\<close> with the argument error "a and b MUST be > 0", and so
  not with the error of a missing inverse, although \<^verbatim>\<open>gcd(a, n)\<close> is \<open>n\<close>.
\<close>

theorem modInv_multiple_fails_in_eGcd:
  assumes "0 < n" and "n dvd a"
  shows "toZn a n = Inr 0
         \<and> modInv a n = Inl (InvalidArgument ''a and b MUST be > 0'')
         \<and> modInv a n \<noteq> Inl (NoInverseExists a n)
         \<and> gcd_js a n = Some n"
proof -
  have z: "toZn a n = Inr 0" using assms by (simp add: toZn_range)
  have g: "gcd a n = n" using assms by (simp add: gcd_proj2_iff)
  show ?thesis using assms z g by (simp add: modInv_def eGcd_def gcd_js_correct)
qed

theorem modInv_multiple_fails_in_eGcd_witness:
  "(0::int) < 7 \<and> (7::int) dvd 14
   \<and> toZn 14 7 = Inr 0
   \<and> modInv 14 7 = Inl (InvalidArgument ''a and b MUST be > 0'')
   \<and> modInv 14 7 \<noteq> Inl (NoInverseExists 14 7)
   \<and> gcd_js 14 7 = Some 7"
proof -
  have h1: "(0::int) < 7" by simp
  have h2: "(7::int) dvd 14" by simp
  show ?thesis using h1 h2 modInv_multiple_fails_in_eGcd [OF h1 h2] by simp
qed

section \<open>Facts about the random draws\<close>

lemma bitLength_loop_gt: "bits < bitLength_loop a bits"
proof (induction a bits rule: bitLength_loop.induct)
  case (1 a bits)
  show ?case
  proof (cases "drop_bit 1 a > 1")
    case True
    then have "bitLength_loop a bits = bitLength_loop (drop_bit 1 a) (bits + 1)"
      by (subst bitLength_loop.simps) (simp add: Let_def)
    moreover have "bits + 1 < bitLength_loop (drop_bit 1 a) (bits + 1)"
      using "1.IH" [OF refl refl True] .
    ultimately show ?thesis by simp
  next
    case False
    then have "bitLength_loop a bits = bits + 1"
      by (subst bitLength_loop.simps) (simp add: Let_def)
    then show ?thesis by simp
  qed
qed

lemma bitLength_pos: "1 \<le> bitLength a"
  using bitLength_loop_gt [of 1 a] by (simp add: bitLength_def)

lemma randBytesSync_draws:
  "1 \<le> n \<Longrightarrow> \<exists>buf. randBytesSync n f src = (Inr buf, \<lambda>i. src (i + nat n)) \<and> length buf = nat n"
  by (simp add: randBytesSync_def getRandomValues_def)

lemma randBitsSync_draws:
  assumes "1 \<le> n"
  shows "\<exists>buf. randBitsSync n f src = (Inr buf, \<lambda>i. src (i + nat ((n + 7) div 8)))
               \<and> length buf = nat ((n + 7) div 8)"
proof -
  have "1 \<le> (n + 7) div 8" using assms by simp
  from randBytesSync_draws [OF this, of False src]
  obtain buf where "randBytesSync ((n + 7) div 8) False src
                    = (Inr buf, \<lambda>i. src (i + nat ((n + 7) div 8)))"
    "length buf = nat ((n + 7) div 8)" by blast
  then show ?thesis using assms by (simp add: randBitsSync_def Let_def)
qed

lemma fromBuffer_foldl:
  "foldl (\<lambda>ret i. push_bit 8 ret + uint (i :: 8 word)) acc xs
   = acc * 256 ^ length xs + foldl (\<lambda>ret i. push_bit 8 ret + uint i) 0 xs"
proof (induction xs arbitrary: acc)
  case Nil
  show ?case by simp
next
  case (Cons x xs)
  have "foldl (\<lambda>ret i. push_bit 8 ret + uint i) acc (x # xs)
        = foldl (\<lambda>ret i. push_bit 8 ret + uint i) (push_bit 8 acc + uint x) xs" by simp
  also have "\<dots> = (push_bit 8 acc + uint x) * 256 ^ length xs
                    + foldl (\<lambda>ret i. push_bit 8 ret + uint i) 0 xs"
    by (rule Cons.IH)
  finally have l: "foldl (\<lambda>ret i. push_bit 8 ret + uint i) acc (x # xs)
        = (acc * 256 + uint x) * 256 ^ length xs
          + foldl (\<lambda>ret i. push_bit 8 ret + uint i) 0 xs"
    by (simp add: push_bit_eq_mult)
  have "foldl (\<lambda>ret i. push_bit 8 ret + uint i) 0 (x # xs)
        = foldl (\<lambda>ret i. push_bit 8 ret + uint i) (uint x) xs" by simp
  also have "\<dots> = uint x * 256 ^ length xs
                    + foldl (\<lambda>ret i. push_bit 8 ret + uint i) 0 xs"
    by (rule Cons.IH)
  finally show ?case using l by (simp add: algebra_simps)
qed

lemma fromBuffer_Cons:
  "fromBuffer (x # xs) = uint x * 256 ^ length xs + fromBuffer xs"
  unfolding fromBuffer_def
  by (simp add: fromBuffer_foldl [of "uint x" xs])

lemma fromBuffer_bounds: "0 \<le> fromBuffer xs \<and> fromBuffer xs < 256 ^ length xs"
proof (induction xs)
  case Nil
  show ?case by (simp add: fromBuffer_def)
next
  case (Cons x xs)
  have u: "0 \<le> uint x" "uint x \<le> 255"
    using uint_lt2p [of x] by simp_all
  have "uint x * 256 ^ length xs \<le> 255 * 256 ^ length xs"
    using u by (intro mult_right_mono) simp_all
  moreover have "0 \<le> uint x * 256 ^ length xs" using u by simp
  ultimately show ?case using Cons.IH unfolding fromBuffer_Cons length_Cons power_Suc
    by linarith
qed

lemma randBetween_loop_result:
  assumes "randBetween_loop bl iv src = Some y" and "1 \<le> bl"
  shows "\<exists>v k. y = (Inr v, \<lambda>i. src (i + k)) \<and> 0 \<le> v \<and> v \<le> iv"
proof -
  have "1 \<le> bl \<longrightarrow> (\<exists>v k. y = (Inr v, \<lambda>i. src (i + k)) \<and> 0 \<le> v \<and> v \<le> iv)"
  proof (rule randBetween_loop.raw_induct
      [where P = "\<lambda>bl iv src y. 1 \<le> bl \<longrightarrow>
                    (\<exists>v k. y = (Inr v, \<lambda>i. src (i + k)) \<and> 0 \<le> v \<and> v \<le> iv)",
       OF _ assms(1)])
    fix rec :: "int \<Rightarrow> int \<Rightarrow> entropy \<Rightarrow> ((error + int) \<times> entropy) option"
    fix bl iv :: int and src :: entropy and y :: "(error + int) \<times> entropy"
    assume IH: "\<And>bl iv src y. rec bl iv src = Some y \<Longrightarrow>
        1 \<le> bl \<longrightarrow> (\<exists>v k. y = (Inr v, \<lambda>i. src (i + k)) \<and> 0 \<le> v \<and> v \<le> iv)"
    assume body: "(case randBitsSync bl False src of
        (Inl e, src') \<Rightarrow> Some (Inl e, src')
      | (Inr buf, src') \<Rightarrow>
          (let rnd = fromBuffer buf
           in if rnd > iv then rec bl iv src' else Some (Inr rnd, src'))) = Some y"
    show "1 \<le> bl \<longrightarrow> (\<exists>v k. y = (Inr v, \<lambda>i. src (i + k)) \<and> 0 \<le> v \<and> v \<le> iv)"
    proof
      assume bl: "1 \<le> bl"
      from randBitsSync_draws [OF bl, of False src]
      obtain buf where
        buf: "randBitsSync bl False src = (Inr buf, \<lambda>i. src (i + nat ((bl + 7) div 8)))"
        by blast
      show "\<exists>v k. y = (Inr v, \<lambda>i. src (i + k)) \<and> 0 \<le> v \<and> v \<le> iv"
      proof (cases "fromBuffer buf > iv")
        case True
        with body buf have "rec bl iv (\<lambda>i. src (i + nat ((bl + 7) div 8))) = Some y"
          by (simp add: Let_def)
        from IH [OF this] bl
        obtain v k where "y = (Inr v, \<lambda>i. src (i + k + nat ((bl + 7) div 8)))" "0 \<le> v" "v \<le> iv"
          by blast
        then show ?thesis
          by (intro exI [of _ v] exI [of _ "k + nat ((bl + 7) div 8)"]) (simp add: add.assoc)
      next
        case False
        with body buf have "y = (Inr (fromBuffer buf), \<lambda>i. src (i + nat ((bl + 7) div 8)))"
          by (simp add: Let_def)
        with False fromBuffer_bounds [of buf] show ?thesis by auto
      qed
    qed
  qed
  with assms(2) show ?thesis by simp
qed

lemma randBetween_result:
  assumes "randBetween mx mn src = Some y" and "mn < mx"
  shows "\<exists>v k. y = (Inr v, \<lambda>i. src (i + k)) \<and> mn \<le> v \<and> v \<le> mx"
proof -
  from assms obtain y' where l: "randBetween_loop (bitLength (mx - mn)) (mx - mn) src = Some y'"
    by (auto simp: randBetween_def Let_def split: option.splits)
  from randBetween_loop_result [OF l bitLength_pos]
  obtain v k where v: "y' = (Inr v, \<lambda>i. src (i + k))" "0 \<le> v" "v \<le> mx - mn" by blast
  with assms l have "y = (Inr (v + mn), \<lambda>i. src (i + k))"
    by (simp add: randBetween_def Let_def)
  with v show ?thesis by auto
qed

section \<open>Facts about the primality test\<close>

lemma factor_twos_total: "0 < aux \<Longrightarrow> \<exists>a'. factor_twos aux a = Some a' \<and> a \<le> a'"
proof (induction "nat aux" arbitrary: aux a rule: less_induct)
  case less
  have r: "bigint_rem aux 2 = aux mod 2" and q: "bigint_div aux 2 = aux div 2"
    using less.prems by (simp_all add: bigint_rem_nonneg bigint_div_nonneg)
  show ?case
  proof (cases "aux mod 2 = 0")
    case False
    then have "factor_twos aux a = Some a"
      by (subst factor_twos.simps) (simp add: r)
    then show ?thesis by simp
  next
    case True
    then have h: "0 < aux div 2" "nat (aux div 2) < nat aux"
      using less.prems by auto
    from less.hyps [OF h(2) h(1), of "a + 1"]
    obtain a' where "factor_twos (aux div 2) (a + 1) = Some a'" "a + 1 \<le> a'" by blast
    moreover have "factor_twos aux a = factor_twos (aux div 2) (a + 1)"
      using True by (subst factor_twos.simps) (simp add: r q)
    ultimately show ?thesis by simp
  qed
qed

lemma squarings_total: "1 < w \<Longrightarrow> \<exists>r. squarings w d a z j = Inr r"
proof (induction w d a z j rule: squarings.induct)
  case (1 w d a z j)
  have mp: "modPow z 2 w = Inr ((z mod w) ^ 2 mod w)"
    using "1.prems" modPow_nonneg_exponent [of w 2 z] by simp
  show ?case
  proof (cases "j < a")
    case False
    then show ?thesis by (subst squarings.simps) simp
  next
    case True
    show ?thesis
    proof (cases "(z mod w) ^ 2 mod w = d \<or> (z mod w) ^ 2 mod w = 1")
      case T2: True
      then show ?thesis using True mp by (subst squarings.simps) auto
    next
      case False
      then have "squarings w d a z j = squarings w d a ((z mod w) ^ 2 mod w) (j + 1)"
        using True mp by (subst squarings.simps) simp
      moreover have "\<exists>r. squarings w d a ((z mod w) ^ 2 mod w) (j + 1) = Inr r"
        using "1.IH" [OF True mp] False "1.prems" by simp
      ultimately show ?thesis by simp
    qed
  qed
qed

lemma witness_round_total:
  assumes "1 < w" "2 < d" "0 \<le> m" "randBetween d 2 src \<noteq> None"
  shows "\<exists>r k. witness_round w d m a src = Some (Inr r, \<lambda>i. src (i + k))"
proof -
  from assms(4) obtain y where y: "randBetween d 2 src = Some y" by blast
  from randBetween_result [OF y] assms(2)
  obtain b k where b: "y = (Inr b, \<lambda>i. src (i + k))" by auto
  have mp: "modPow b m w = Inr ((b mod w) ^ nat m mod w)"
    using assms modPow_nonneg_exponent [of w m b] by simp
  obtain r where r: "squarings w d a ((b mod w) ^ nat m mod w) 1 = Inr r"
    using squarings_total [OF assms(1)] by blast
  show ?thesis
    using y b mp r by (auto simp: witness_round_def split: option.splits)
qed

lemma witness_loop_bounded:
  "1 \<le> iterations \<Longrightarrow>
   witness_loop w d m a iterations src = rounds_upto (nat iterations) w d m a src"
proof (induction "nat iterations" arbitrary: iterations src)
  case 0
  then show ?case by simp
next
  case (Suc n)
  then have it: "nat iterations = Suc n" by simp
  show ?case
  proof (cases "iterations = 1")
    case True
    then have n0: "n = 0" using it by simp
    show ?thesis
      by (subst witness_loop.simps)
         (auto simp: it n0 True split: option.splits sum.splits prod.splits)
  next
    case False
    then have n: "n = nat (iterations - 1)" "1 \<le> iterations - 1" using it Suc.prems by simp_all
    have IH: "witness_loop w d m a (iterations - 1) src' = rounds_upto n w d m a src'" for src'
      using Suc.hyps(1) [OF n] by (simp add: n(1))
    show ?thesis
      using False
      by (subst witness_loop.simps)
         (auto simp: it IH split: option.splits sum.splits prod.splits)
  qed
qed

lemma rounds_upto_total:
  assumes "1 < w" "2 < d" "0 \<le> m"
  shows "(\<forall>k. randBetween d 2 (\<lambda>i. src (i + k)) \<noteq> None) \<Longrightarrow>
         \<exists>r j. rounds_upto n w d m a src = Some (Inr r, \<lambda>i. src (i + j))"
proof (induction n arbitrary: src)
  case 0
  show ?case by (intro exI [of _ True] exI [of _ 0]) simp
next
  case (Suc n)
  from Suc.prems have "randBetween d 2 (\<lambda>i. src (i + 0)) \<noteq> None" by blast
  then have "randBetween d 2 src \<noteq> None" by simp
  from witness_round_total [OF assms this, of a]
  obtain r k where r: "witness_round w d m a src = Some (Inr r, \<lambda>i. src (i + k))" by blast
  show ?case
  proof (cases r)
    case False
    with r show ?thesis by auto
  next
    case True
    have "\<forall>j. randBetween d 2 (\<lambda>i. (\<lambda>i. src (i + k)) (i + j)) \<noteq> None"
    proof
      fix j
      have "randBetween d 2 (\<lambda>i. src (i + (j + k))) \<noteq> None" using Suc.prems by blast
      then show "randBetween d 2 (\<lambda>i. (\<lambda>i. src (i + k)) (i + j)) \<noteq> None"
        by (simp add: add.assoc)
    qed
    from Suc.IH [OF this]
    obtain r' j where "rounds_upto n w d m a (\<lambda>i. src (i + k)) = Some (Inr r', \<lambda>i. src (i + j + k))"
      by auto
    with r True show ?thesis
      by (intro exI [of _ r'] exI [of _ "j + k"]) (simp add: add.assoc)
  qed
qed

lemma trial_division_three: "trial_division firstPrimes 3 = Some True"
proof -
  obtain ps where ps: "firstPrimes = 3 # ps" by (simp add: firstPrimes_def)
  have "trial_division (3 # ps) 3 = Some True" by simp
  then show ?thesis by (simp only: ps)
qed

lemma isProbablyPrime_core_total:
  assumes "0 \<le> w" "1 \<le> iterations" "\<forall>k. randBetween (w - 1) 2 (\<lambda>i. src (i + k)) \<noteq> None"
  shows "\<exists>r src'. isProbablyPrime_core w iterations src = Some (Inr r, src')"
proof (cases "w = 2 \<or> w AND 1 = 0 \<or> w = 1")
  case True
  then show ?thesis by (auto simp: isProbablyPrime_core_def)
next
  case False
  then have odd: "odd w" by (simp add: and_one_zero_iff_even)
  show ?thesis
  proof (cases "trial_division firstPrimes w")
    case (Some r)
    with False show ?thesis by (simp add: isProbablyPrime_core_def)
  next
    case None
    have "w \<noteq> 3" using None trial_division_three by auto
    moreover have "w \<noteq> 0" "w \<noteq> 4" using odd by auto
    ultimately have w: "4 < w" using False assms(1) by simp
    then have d: "0 < w - 1" by simp
    from factor_twos_total [OF d, of 0]
    obtain a where a: "factor_twos (w - 1) 0 = Some a" by blast
    have m: "0 \<le> bigint_div (w - 1) (2 ^ nat a)"
      using d by (simp add: bigint_div_nonneg pos_imp_zdiv_nonneg_iff)
    have "\<exists>r j. rounds_upto (nat iterations) w (w - 1) (bigint_div (w - 1) (2 ^ nat a)) a src
                 = Some (Inr r, \<lambda>i. src (i + j))"
      using w m assms(3) by (intro rounds_upto_total) simp_all
    then show ?thesis
      using False None a assms(2)
      by (auto simp: isProbablyPrime_core_def Let_def witness_loop_bounded)
  qed
qed

lemma witness_loop_never_true:
  assumes "witness_loop w d m a iterations src = Some y" and "iterations \<le> 0"
  shows "fst y \<noteq> Inr True"
proof -
  have "iterations \<le> 0 \<longrightarrow> fst y \<noteq> Inr True"
  proof (rule witness_loop.raw_induct
      [where P = "\<lambda>w d m a iterations src y. iterations \<le> 0 \<longrightarrow> fst y \<noteq> Inr True",
       OF _ assms(1)])
    fix rec :: "int \<Rightarrow> int \<Rightarrow> int \<Rightarrow> int \<Rightarrow> int \<Rightarrow> entropy \<Rightarrow> ((error + bool) \<times> entropy) option"
    fix w d m a iterations :: int and src :: entropy and y :: "(error + bool) \<times> entropy"
    assume IH: "\<And>w d m a iterations src y. rec w d m a iterations src = Some y \<Longrightarrow>
        iterations \<le> 0 \<longrightarrow> fst y \<noteq> Inr True"
    assume body: "(case witness_round w d m a src of
        None \<Rightarrow> None
      | Some (Inl e, src') \<Rightarrow> Some (Inl e, src')
      | Some (Inr pass, src') \<Rightarrow>
          if \<not> pass then Some (Inr False, src')
          else if iterations - 1 \<noteq> 0 then rec w d m a (iterations - 1) src'
          else Some (Inr True, src')) = Some y"
    show "iterations \<le> 0 \<longrightarrow> fst y \<noteq> Inr True"
    proof
      assume le: "iterations \<le> 0"
      then have ne: "iterations - 1 \<noteq> 0" "iterations - 1 \<le> 0" by simp_all
      show "fst y \<noteq> Inr True"
        using body ne IH [of w d m a "iterations - 1" _ y]
        by (auto split: option.splits sum.splits prod.splits if_splits)
    qed
  qed
  with assms(2) show ?thesis by simp
qed

lemma zero_round_1601:
  "witness_round 1601 1600 25 6 (\<lambda>_. 0) = Some (Inr True, \<lambda>_. 0)"
proof -
  have l: "map_option fst (randBetween 1600 2 (\<lambda>_. 0)) = Some (Inr 2)" by code_simp
  then obtain src' where y: "randBetween 1600 2 (\<lambda>_. 0) = Some (Inr 2, src')" by auto
  from randBetween_result [OF y] obtain k where "src' = (\<lambda>i. (\<lambda>_. 0) (i + k))" by auto
  then have s: "src' = (\<lambda>_. 0)" by simp
  have mp: "modPow 2 25 1601 = Inr 674" by code_simp
  have sq: "squarings 1601 1600 6 674 1 = Inr (Some 1600)" by code_simp
  show ?thesis using y s mp sq by (simp add: witness_round_def)
qed

lemma witness_loop_1601_diverges:
  assumes "witness_loop w d m a iterations src = Some y"
  shows "\<not> (w = 1601 \<and> d = 1600 \<and> m = 25 \<and> a = 6 \<and> iterations \<le> 0 \<and> src = (\<lambda>_. 0))"
proof (rule witness_loop.raw_induct
      [where P = "\<lambda>w d m a iterations src y.
         \<not> (w = 1601 \<and> d = 1600 \<and> m = 25 \<and> a = 6 \<and> iterations \<le> 0 \<and> src = (\<lambda>_. 0))",
       OF _ assms(1)])
  fix rec :: "int \<Rightarrow> int \<Rightarrow> int \<Rightarrow> int \<Rightarrow> int \<Rightarrow> entropy \<Rightarrow> ((error + bool) \<times> entropy) option"
  fix w d m a iterations :: int and src :: entropy and y :: "(error + bool) \<times> entropy"
  assume IH: "\<And>w d m a iterations src y. rec w d m a iterations src = Some y \<Longrightarrow>
      \<not> (w = 1601 \<and> d = 1600 \<and> m = 25 \<and> a = 6 \<and> iterations \<le> 0 \<and> src = (\<lambda>_. 0))"
  assume body: "(case witness_round w d m a src of
      None \<Rightarrow> None
    | Some (Inl e, src') \<Rightarrow> Some (Inl e, src')
    | Some (Inr pass, src') \<Rightarrow>
        if \<not> pass then Some (Inr False, src')
        else if iterations - 1 \<noteq> 0 then rec w d m a (iterations - 1) src'
        else Some (Inr True, src')) = Some y"
  show "\<not> (w = 1601 \<and> d = 1600 \<and> m = 25 \<and> a = 6 \<and> iterations \<le> 0 \<and> src = (\<lambda>_. 0))"
  proof
    assume c: "w = 1601 \<and> d = 1600 \<and> m = 25 \<and> a = 6 \<and> iterations \<le> 0 \<and> src = (\<lambda>_. 0)"
    then have ne: "iterations - 1 \<noteq> 0" "iterations - 1 \<le> 0" by simp_all
    from body c ne have "rec 1601 1600 25 6 (iterations - 1) (\<lambda>_. 0) = Some y"
      by (simp add: zero_round_1601)
    from IH [OF this] ne show False by simp
  qed
qed

lemma isProbablyPrime_core_1601_zero_iterations:
  "isProbablyPrime_core 1601 0 (\<lambda>_. 0) = None"
proof -
  have td: "trial_division firstPrimes 1601 = None" by code_simp
  have ft: "factor_twos 1600 0 = Some 6" by code_simp
  have "witness_loop 1601 1600 25 6 0 (\<lambda>_. 0) = None"
  proof (cases "witness_loop 1601 1600 25 6 0 (\<lambda>_. 0)")
    case None
    then show ?thesis .
  next
    case (Some y)
    from witness_loop_1601_diverges [OF this] show ?thesis by simp
  qed
  then show ?thesis
    using td ft by (simp add: isProbablyPrime_core_def bigint_div_def)
qed

section \<open>The claims about the primality test\<close>

text \<open>
  C1 says that every round draws its witness from \<open>[2, w - 2]\<close>. The round calls
  \<^verbatim>\<open>randBetween(d, 2n)\<close> with \<open>d = w - 1\<close>, so \<open>w - 1\<close> can be drawn: for \<open>w = 1601\<close>
  and a random source that delivers the bytes 6 and 62 the witness is 1600, and the
  test of one round accepts.
\<close>

theorem witness_draw_reaches_w_minus_1:
  "map_option fst (randBetween (1601 - 1) 2 (\<lambda>i. if i = 0 then 6 else 62))
     = Some (Inr (1601 - 1))
   \<and> map_option fst (isProbablyPrime_core 1601 1 (\<lambda>i. if i = 0 then 6 else 62))
     = Some (Inr True)"
  by code_simp

text \<open>
  C9. For \<open>w \<ge> 0\<close> and \<open>iterations \<ge> 1\<close>, and a random source on which every draw of a
  witness ends, wherever in the source it starts, \<^verbatim>\<open>_isProbablyPrime\<close> returns true or
  false; its \<^verbatim>\<open>do\<close> loop is the sequence of at most \<open>iterations\<close> rounds. From
  \<open>iterations \<le> 0\<close> the loop test never lets the loop end, so the loop never returns
  true; for the prime 1601, zero iterations and the source of zero bytes, on which every
  draw ends with the witness 2, the test does not return.
\<close>

theorem isProbablyPrime_core_terminates:
  "(0 \<le> w \<and> 1 \<le> iterations \<and> (\<forall>k. randBetween (w - 1) 2 (\<lambda>i. src (i + k)) \<noteq> None)
      \<longrightarrow> (\<exists>r src'. isProbablyPrime_core w iterations src = Some (Inr r, src')))
   \<and> (1 \<le> iterations
      \<longrightarrow> witness_loop w d m a iterations src = rounds_upto (nat iterations) w d m a src)
   \<and> (iterations \<le> 0
      \<longrightarrow> (\<forall>src'. witness_loop w d m a iterations src \<noteq> Some (Inr True, src')))
   \<and> map_option fst (randBetween (1601 - 1) 2 (\<lambda>_. 0)) = Some (Inr 2)
   \<and> isProbablyPrime_core 1601 0 (\<lambda>_. 0) = None"
proof (intro conjI impI allI)
  assume "0 \<le> w \<and> 1 \<le> iterations \<and> (\<forall>k. randBetween (w - 1) 2 (\<lambda>i. src (i + k)) \<noteq> None)"
  then show "\<exists>r src'. isProbablyPrime_core w iterations src = Some (Inr r, src')"
    by (intro isProbablyPrime_core_total) simp_all
next
  assume "1 \<le> iterations"
  then show "witness_loop w d m a iterations src = rounds_upto (nat iterations) w d m a src"
    by (rule witness_loop_bounded)
next
  fix src'
  assume le: "iterations \<le> 0"
  show "witness_loop w d m a iterations src \<noteq> Some (Inr True, src')"
  proof
    assume "witness_loop w d m a iterations src = Some (Inr True, src')"
    from witness_loop_never_true [OF this le] show False by simp
  qed
next
  show "map_option fst (randBetween (1601 - 1) 2 (\<lambda>_. 0)) = Some (Inr 2)" by code_simp
next
  show "isProbablyPrime_core 1601 0 (\<lambda>_. 0) = None"
    by (rule isProbablyPrime_core_1601_zero_iterations)
qed

theorem isProbablyPrime_core_terminates_witness:
  "(0::int) \<le> 1601 \<and> (1::int) \<le> 2
   \<and> (\<forall>k::nat. randBetween (1601 - 1) 2 (\<lambda>i. 0) \<noteq> None)
   \<and> (\<exists>r src'. isProbablyPrime_core 1601 2 (\<lambda>i. 0) = Some (Inr r, src'))
   \<and> witness_loop 1601 1600 25 6 2 (\<lambda>i. 0) = rounds_upto (nat 2) 1601 1600 25 6 (\<lambda>i. 0)
   \<and> (0::int) \<le> 0
   \<and> (\<forall>src'. witness_loop 1601 1600 25 6 0 (\<lambda>i. 0) \<noteq> Some (Inr True, src'))"
proof -
  have "map_option fst (randBetween (1601 - 1) 2 (\<lambda>i. 0)) = Some (Inr 2)" by code_simp
  then have draws: "randBetween (1601 - 1) 2 (\<lambda>i. 0) \<noteq> None" by auto
  show ?thesis
    using draws
      isProbablyPrime_core_terminates [of 1601 2 "\<lambda>i. 0" 1600 25 6]
      isProbablyPrime_core_terminates [of 1601 0 "\<lambda>i. 0" 1600 25 6]
    by simp
qed

section \<open>Facts about the generated candidates and the search\<close>
















lemma prime_deliver_append:
  "prime_deliver n it (xs @ ys) st = prime_deliver n it ys (prime_deliver n it xs st)"
proof (induction xs arbitrary: st)
  case Nil
  show ?case by simp
next
  case (Cons a xs)
  show ?case by (cases a) (simp add: Cons.IH)
qed

lemma prime_onmessage_composite:
  assumes "\<not> msg_isPrime m"
  shows "result (fst (prime_onmessage n it m w (c, src))) = result c"
    and "workerList (fst (prime_onmessage n it m w (c, src))) = workerList c"
    and "terminated (fst (prime_onmessage n it m w (c, src))) = terminated c"
  using assms
  by (auto simp: prime_onmessage_def postMessage_def Let_def split: prod.splits sum.splits)

lemma prime_onmessage_prime:
  assumes "msg_isPrime m"
  shows "prime_onmessage n it m w (c, src)
         = (c\<lparr>terminated := terminated c \<union> set (workerList c), workerList := [],
              result := resolve (msg_value m) (result c)\<rparr>, src)"
  using assms by (simp add: prime_onmessage_def)

lemma prime_onmessage_settled:
  assumes "result c = Resolved v"
  shows "result (fst (prime_onmessage n it m w (c, src))) = Resolved v"
proof (cases "msg_isPrime m")
  case True
  then show ?thesis using assms by (simp add: prime_onmessage_prime resolve_def)
next
  case False
  then show ?thesis using assms by (simp add: prime_onmessage_composite)
qed

lemma prime_onmessage_no_workers:
  assumes "workerList c = []"
  shows "workerList (fst (prime_onmessage n it m w (c, src))) = []"
proof (cases "msg_isPrime m")
  case True
  then show ?thesis by (simp add: prime_onmessage_prime)
next
  case False
  then show ?thesis using assms by (simp add: prime_onmessage_composite)
qed

lemma prime_deliver_settled:
  "result c = Resolved v \<Longrightarrow> workerList c = [] \<Longrightarrow>
   result (fst (prime_deliver n it msgs (c, src))) = Resolved v
   \<and> workerList (fst (prime_deliver n it msgs (c, src))) = []"
proof (induction msgs arbitrary: c src)
  case Nil
  then show ?case by simp
next
  case (Cons a msgs)
  obtain m w where a: "a = (m, w)" by (cases a)
  obtain c' src' where st: "prime_onmessage n it m w (c, src) = (c', src')"
    by (cases "prime_onmessage n it m w (c, src)")
  have "result c' = Resolved v" "workerList c' = []"
    using prime_onmessage_settled [OF Cons.prems(1), of n it m w src]
      prime_onmessage_no_workers [OF Cons.prems(2), of n it m w src] st by simp_all
  from Cons.IH [OF this, of src'] show ?case using a st by simp
qed

lemma prime_deliver_composites:
  "\<forall>(m, w) \<in> set msgs. \<not> msg_isPrime m \<Longrightarrow>
   result (fst (prime_deliver n it msgs (c, src))) = result c
   \<and> workerList (fst (prime_deliver n it msgs (c, src))) = workerList c
   \<and> terminated (fst (prime_deliver n it msgs (c, src))) = terminated c"
proof (induction msgs arbitrary: c src)
  case Nil
  then show ?case by simp
next
  case (Cons a msgs)
  obtain m w where a: "a = (m, w)" by (cases a)
  obtain c' src' where st: "prime_onmessage n it m w (c, src) = (c', src')"
    by (cases "prime_onmessage n it m w (c, src)")
  have np: "\<not> msg_isPrime m" using Cons.prems a by simp
  have same: "result c' = result c" "workerList c' = workerList c" "terminated c' = terminated c"
    using prime_onmessage_composite [OF np, of n it w c src] st by simp_all
  have "\<forall>(m, w) \<in> set msgs. \<not> msg_isPrime m" using Cons.prems by simp
  from Cons.IH [OF this, of c' src'] show ?case using a st same by simp
qed

section \<open>The claims about the prime search\<close>

text \<open>
  C8. While the promise is pending, let reports that are not prime arrive and then a
  report that is. With that report every worker of the list is terminated, the list is
  emptied and the promise is resolved with the reported value; whatever reports arrive
  after it, prime or not, the promise keeps that value, so one result at most is
  accepted.
\<close>

theorem first_prime_report_wins:
  assumes "result c = Pending"
    and "\<forall>(m', w') \<in> set before. \<not> msg_isPrime m'"
    and "msg_isPrime m"
  shows "result (fst (prime_deliver n it (before @ [(m, w)]) (c, src))) = Resolved (msg_value m)
    \<and> workerList (fst (prime_deliver n it (before @ [(m, w)]) (c, src))) = []
    \<and> set (workerList c) \<subseteq> terminated (fst (prime_deliver n it (before @ [(m, w)]) (c, src)))
    \<and> result (fst (prime_deliver n it (before @ (m, w) # after) (c, src))) = Resolved (msg_value m)
    \<and> workerList (fst (prime_deliver n it (before @ (m, w) # after) (c, src))) = []"
proof -
  obtain c1 s1 where b: "prime_deliver n it before (c, src) = (c1, s1)"
    by (cases "prime_deliver n it before (c, src)")
  have c1: "result c1 = Pending" "workerList c1 = workerList c" "terminated c1 = terminated c"
    using prime_deliver_composites [OF assms(2), of n it c src] b assms(1) by simp_all
  define c2 where "c2 = c1\<lparr>terminated := terminated c1 \<union> set (workerList c1), workerList := [],
              result := resolve (msg_value m) (result c1)\<rparr>"
  have step: "prime_onmessage n it m w (c1, s1) = (c2, s1)"
    using assms(3) by (simp add: prime_onmessage_prime c2_def)
  have c2: "result c2 = Resolved (msg_value m)" "workerList c2 = []"
    "set (workerList c) \<subseteq> terminated c2"
    using c1 by (simp_all add: c2_def resolve_def)
  have first: "prime_deliver n it (before @ [(m, w)]) (c, src) = (c2, s1)"
    using b step by (simp add: prime_deliver_append)
  have rest: "prime_deliver n it (before @ (m, w) # after) (c, src)
              = prime_deliver n it after (c2, s1)"
    using b step by (simp add: prime_deliver_append)
  show ?thesis
    using first rest c2 prime_deliver_settled [OF c2(1) c2(2), of n it after s1] by simp
qed

theorem first_prime_report_wins_witness:
  "result (fst (prime_deliver 4 16
       ([(\<lparr>msg_isPrime = False, msg_value = 9, msg_id = 0\<rparr>, 0)]
        @ [(\<lparr>msg_isPrime = True, msg_value = 11, msg_id = 1\<rparr>, 1)])
       (\<lparr>workerList = [0, 1], terminated = {}, result = Pending, posted = []\<rparr>, \<lambda>_. 0)))
     = Resolved 11
   \<and> result (fst (prime_deliver 4 16
       ([(\<lparr>msg_isPrime = False, msg_value = 9, msg_id = 0\<rparr>, 0)]
        @ (\<lparr>msg_isPrime = True, msg_value = 11, msg_id = 1\<rparr>, 1)
        # [(\<lparr>msg_isPrime = True, msg_value = 13, msg_id = 0\<rparr>, 0)])
       (\<lparr>workerList = [0, 1], terminated = {}, result = Pending, posted = []\<rparr>, \<lambda>_. 0)))
     = Resolved 11"
  using first_prime_report_wins
    [of "\<lparr>workerList = [0, 1], terminated = {}, result = Pending, posted = []\<rparr>"
        "[(\<lparr>msg_isPrime = False, msg_value = 9, msg_id = 0\<rparr>, 0)]"
        "\<lparr>msg_isPrime = True, msg_value = 11, msg_id = 1\<rparr>" 4 16 1 "\<lambda>_. 0"
        "[(\<lparr>msg_isPrime = True, msg_value = 13, msg_id = 0\<rparr>, 0)]"]
  by simp



end
